theory Spec2Isabelle
  imports Complex_Main "HOL-Library.Char_ord" "HOL-Library.List_Lexorder"
begin

section \<open>Errors and the string primitives of the C++ library\<close>

text \<open>
  The exceptions the two readers throw, and one more outcome: an access outside a
  \<^verbatim>\<open>std::string\<close> or \<^verbatim>\<open>std::vector\<close> through \<^verbatim>\<open>operator[]\<close>, which C++ leaves
  undefined. The model makes it a result of its own, \<open>OutOfBounds\<close>, so that no theorem
  silently depends on what such a read would return.
  \<^item> \<open>FileCannotBeOpened name\<close>: \<^verbatim>\<open>runtime_error("File cannot be opened: " + fileName)\<close>;
  \<^item> \<open>InconsistentCSV line actual expected\<close>: the \<^verbatim>\<open>range_error\<close> whose message is
    \<^verbatim>\<open>"Inconsistent CSV file. Line <line> contains <actual> values. Expected <expected>"\<close>;
  \<^item> \<open>OutOfRange\<close>: \<^verbatim>\<open>std::out_of_range\<close> of \<^verbatim>\<open>substr\<close> with a start beyond the size;
  \<^item> \<open>PropertyNotFound key\<close>: \<^verbatim>\<open>out_of_range("Property not found: " + key)\<close>;
  \<^item> \<open>RuntimeError e\<close>: the \<^verbatim>\<open>runtime_error(e.what())\<close> a \<^verbatim>\<open>catch\<close> clause of the properties
    reader throws for the exception \<open>e\<close> it caught.
\<close>

datatype error =
    FileCannotBeOpened string
  | InconsistentCSV nat nat nat
  | OutOfRange
  | PropertyNotFound string
  | RuntimeError error
  | OutOfBounds

text \<open>\<^verbatim>\<open>str.find(c, pos)\<close>: the first index \<open>\<ge> pos\<close> holding \<open>c\<close>; \<open>None\<close> is \<^verbatim>\<open>npos\<close>.\<close>

function find_char :: "string \<Rightarrow> char \<Rightarrow> nat \<Rightarrow> nat option" where
  "find_char str c pos =
     (if pos < length str
      then (if str ! pos = c then Some pos else find_char str c (pos + 1))
      else None)"
  by pat_completeness auto
termination
  by (relation "measure (\<lambda>(str, c, pos). length str - pos)") auto

declare find_char.simps [simp del]

text \<open>\<^verbatim>\<open>str.substr(pos, n)\<close>: throws \<^verbatim>\<open>out_of_range\<close> when \<open>pos > size\<close>, and otherwise
  copies at most \<open>n\<close> characters from \<open>pos\<close>.\<close>

definition substr :: "string \<Rightarrow> nat \<Rightarrow> nat \<Rightarrow> error + string" where
  "substr str pos n = (if pos > length str then Inl OutOfRange else Inr (take n (drop pos str)))"

text \<open>\<^verbatim>\<open>str[i]\<close> on a \<^verbatim>\<open>std::string\<close>: the character at \<open>i < size\<close>, the null
  character at \<open>i = size\<close>, and undefined beyond.\<close>

definition string_at :: "string \<Rightarrow> nat \<Rightarrow> error + char" where
  "string_at str i =
     (if i < length str then Inr (str ! i)
      else if i = length str then Inr (CHR 0x00)
      else Inl OutOfBounds)"

text \<open>\<^verbatim>\<open>str.erase(pos)\<close>: throws \<^verbatim>\<open>out_of_range\<close> when \<open>pos > size\<close>, and otherwise
  keeps the first \<open>pos\<close> characters.\<close>

definition erase_from :: "string \<Rightarrow> nat \<Rightarrow> error + string" where
  "erase_from str pos = (if pos > length str then Inl OutOfRange else Inr (take pos str))"

text \<open>\<^verbatim>\<open>c < 0\<close> for a \<^verbatim>\<open>char\<close>, which is signed on the platforms the code is written
  for: the bytes from 128.\<close>

definition is_negative :: "char \<Rightarrow> bool" where
  "is_negative c = (128 \<le> (of_char c :: nat))"

section \<open>The C library functions the readers call\<close>

text \<open>
  \<^verbatim>\<open>isspace\<close>, \<^verbatim>\<open>atoi\<close>, \<^verbatim>\<open>atol\<close> and \<^verbatim>\<open>atof\<close> belong to the C library, not to the
  repository; they are written out here after ISO C (7.4.1.10 and 7.22.1) in the "C"
  locale, so that the decoders that call them compute.
  \<^item> \<open>strtol10\<close> is \<^verbatim>\<open>strtol(s, NULL, 10)\<close>: white space, an optional sign, then the
    longest run of decimal digits; no digits give 0. \<^verbatim>\<open>atoi\<close> and \<^verbatim>\<open>atol\<close> return that
    number; ISO C defines them only when it fits the return type, and the model returns
    the number itself.
  \<^item> \<open>atof\<close> is \<^verbatim>\<open>strtod(s, NULL)\<close>: white space, an optional sign, then an infinity, a
    NaN, a hexadecimal or a decimal floating constant; anything else gives 0. The value
    is kept as the exact rational the constant denotes: the rounding to the binary
    format, the overflow to \<^verbatim>\<open>HUGE_VAL\<close> and the sign of a zero are not modelled.
\<close>

definition isspace :: "char \<Rightarrow> bool" where
  "isspace c =
     (c = CHR 0x20 \<or> c = CHR 0x09 \<or> c = CHR 0x0A \<or> c = CHR 0x0B \<or> c = CHR 0x0C \<or> c = CHR 0x0D)"

definition isdigit :: "char \<Rightarrow> bool" where
  "isdigit c = (CHR ''0'' \<le> c \<and> c \<le> CHR ''9'')"

definition isxdigit :: "char \<Rightarrow> bool" where
  "isxdigit c =
     (isdigit c \<or> (CHR ''a'' \<le> c \<and> c \<le> CHR ''f'') \<or> (CHR ''A'' \<le> c \<and> c \<le> CHR ''F''))"

definition tolower :: "char \<Rightarrow> char" where
  "tolower c = (if CHR ''A'' \<le> c \<and> c \<le> CHR ''Z'' then char_of (of_char c + (32::nat)) else c)"

definition digit_val :: "char \<Rightarrow> nat" where
  "digit_val c = of_char c - 48"

definition xdigit_val :: "char \<Rightarrow> nat" where
  "xdigit_val c = (if isdigit c then of_char c - 48 else of_char (tolower c) - 87)"

fun digits_value :: "nat \<Rightarrow> string \<Rightarrow> nat" where
  "digits_value acc [] = acc"
| "digits_value acc (c # cs) =
     (if isdigit c then digits_value (acc * 10 + digit_val c) cs else acc)"

fun xdigits_value :: "nat \<Rightarrow> string \<Rightarrow> nat" where
  "xdigits_value acc [] = acc"
| "xdigits_value acc (c # cs) =
     (if isxdigit c then xdigits_value (acc * 16 + xdigit_val c) cs else acc)"

definition strtol10 :: "string \<Rightarrow> int" where
  "strtol10 s =
     (case dropWhile isspace s of
        [] \<Rightarrow> 0
      | c # cs \<Rightarrow>
          if c = CHR ''-'' then - int (digits_value 0 cs)
          else if c = CHR ''+'' then int (digits_value 0 cs)
          else int (digits_value 0 (c # cs)))"

definition atoi :: "string \<Rightarrow> int" where
  "atoi s = strtol10 s"

definition atol :: "string \<Rightarrow> int" where
  "atol s = strtol10 s"

datatype cdouble = Finite rat | Infinity bool | NaN

definition ci_prefix :: "string \<Rightarrow> string \<Rightarrow> bool" where
  "ci_prefix p s = (length p \<le> length s \<and> map tolower (take (length p) s) = p)"

text \<open>The exponent part after the mantissa: the marker (\<open>e\<close> or \<open>p\<close>, either case), an
  optional sign and decimal digits; it counts only when a digit follows.\<close>

definition exponent :: "char \<Rightarrow> string \<Rightarrow> int" where
  "exponent m s =
     (case s of
        [] \<Rightarrow> 0
      | c # r \<Rightarrow>
          if tolower c \<noteq> m then 0
          else (case r of
                  [] \<Rightarrow> 0
                | d # r' \<Rightarrow>
                    if d = CHR ''-'' then - int (digits_value 0 r')
                    else if d = CHR ''+'' then int (digits_value 0 r')
                    else int (digits_value 0 r)))"

definition scale :: "rat \<Rightarrow> rat \<Rightarrow> int \<Rightarrow> rat" where
  "scale b v e = (if 0 \<le> e then v * b ^ nat e else v / b ^ nat (- e))"

definition decimal_constant :: "string \<Rightarrow> rat option" where
  "decimal_constant s =
     (let ip = takeWhile isdigit s;
          r1 = dropWhile isdigit s;
          fp = (case r1 of [] \<Rightarrow> [] | c # r \<Rightarrow> if c = CHR ''.'' then takeWhile isdigit r else []);
          r2 = (case r1 of [] \<Rightarrow> [] | c # r \<Rightarrow> if c = CHR ''.'' then dropWhile isdigit r else r1)
      in if ip = [] \<and> fp = [] then None
         else Some (scale 10 (of_nat (digits_value 0 (ip @ fp)) / 10 ^ length fp)
                      (exponent (CHR ''e'') r2)))"

definition hex_constant :: "string \<Rightarrow> rat option" where
  "hex_constant s =
     (case s of
        z # x # r \<Rightarrow>
          if z = CHR ''0'' \<and> tolower x = CHR ''x'' then
            (let ip = takeWhile isxdigit r;
                 r1 = dropWhile isxdigit r;
                 fp = (case r1 of [] \<Rightarrow> []
                       | c # r' \<Rightarrow> if c = CHR ''.'' then takeWhile isxdigit r' else []);
                 r2 = (case r1 of [] \<Rightarrow> []
                       | c # r' \<Rightarrow> if c = CHR ''.'' then dropWhile isxdigit r' else r1)
             in if ip = [] \<and> fp = [] then None
                else Some (scale 2 (of_nat (xdigits_value 0 (ip @ fp)) / 16 ^ length fp)
                             (exponent (CHR ''p'') r2)))
          else None
      | _ \<Rightarrow> None)"

definition atof :: "string \<Rightarrow> cdouble" where
  "atof s =
     (let s1 = dropWhile isspace s;
          neg = (case s1 of [] \<Rightarrow> False | c # r \<Rightarrow> c = CHR ''-'');
          s2 = (case s1 of [] \<Rightarrow> [] | c # r \<Rightarrow> if c = CHR ''-'' \<or> c = CHR ''+'' then r else s1)
      in if ci_prefix ''inf'' s2 then Infinity neg
         else if ci_prefix ''nan'' s2 then NaN
         else (case hex_constant s2 of
                 Some v \<Rightarrow> Finite (if neg then - v else v)
               | None \<Rightarrow>
                   (case decimal_constant s2 of
                      Some v \<Rightarrow> Finite (if neg then - v else v)
                    | None \<Rightarrow> Finite 0)))"

section \<open>Tokenizer\<close>

lemma find_char_Some:
  "find_char str c pos = Some q \<Longrightarrow>
     pos \<le> q \<and> q < length str \<and> str ! q = c \<and> (\<forall>j. pos \<le> j \<and> j < q \<longrightarrow> str ! j \<noteq> c)"
proof (induction str c pos rule: find_char.induct)
  case (1 str c pos)
  show ?case
  proof (cases "pos < length str")
    case False
    with "1.prems" show ?thesis by (simp add: find_char.simps [of str c pos])
  next
    case True
    show ?thesis
    proof (cases "str ! pos = c")
      case True
      with \<open>pos < length str\<close> "1.prems" show ?thesis
        by (auto simp add: find_char.simps [of str c pos])
    next
      case False
      with \<open>pos < length str\<close> "1.prems" have r: "find_char str c (pos + 1) = Some q"
        by (simp add: find_char.simps [of str c pos])
      from "1.IH" [OF \<open>pos < length str\<close> False r]
      have ih: "pos + 1 \<le> q \<and> q < length str \<and> str ! q = c
                 \<and> (\<forall>j. pos + 1 \<le> j \<and> j < q \<longrightarrow> str ! j \<noteq> c)" .
      have "\<forall>j. pos \<le> j \<and> j < q \<longrightarrow> str ! j \<noteq> c"
      proof (intro allI impI)
        fix j assume j: "pos \<le> j \<and> j < q"
        show "str ! j \<noteq> c"
        proof (cases "j = pos")
          case True
          with False show ?thesis by simp
        next
          case False
          with j have "pos + 1 \<le> j \<and> j < q" by arith
          with ih show ?thesis by blast
        qed
      qed
      with ih show ?thesis by simp
    qed
  qed
qed

text \<open>The loop of \<^verbatim>\<open>Tokenizer::operator()\<close>: \<open>init_pos\<close> and the tokens pushed so far are
  its state.\<close>

function tokenizer_loop :: "string \<Rightarrow> char \<Rightarrow> nat \<Rightarrow> string list \<Rightarrow> error + string list" where
  "tokenizer_loop str sep init_pos tokens =
     (case find_char str sep init_pos of
        Some pos \<Rightarrow>
          (case substr str init_pos (pos - init_pos) of
             Inl e \<Rightarrow> Inl e
           | Inr t \<Rightarrow> tokenizer_loop str sep (pos + 1) (tokens @ [t]))
      | None \<Rightarrow>
          (case substr str init_pos (length str - init_pos) of
             Inl e \<Rightarrow> Inl e
           | Inr t \<Rightarrow> Inr (tokens @ [t])))"
  by pat_completeness auto
termination
proof (relation "measure (\<lambda>(str, sep, init_pos, tokens). Suc (length str) - init_pos)")
  show "wf (measure (\<lambda>(str, sep, init_pos, tokens). Suc (length str) - init_pos))" by simp
next
  fix str :: string and sep :: char and init_pos :: nat and tokens :: "string list"
    and pos :: nat and t :: string
  assume "find_char str sep init_pos = Some pos"
  then have "init_pos \<le> pos \<and> pos < length str" using find_char_Some by blast
  then show "((str, sep, pos + 1, tokens @ [t]), (str, sep, init_pos, tokens))
       \<in> measure (\<lambda>(str, sep, init_pos, tokens). Suc (length str) - init_pos)"
    by auto
qed

declare tokenizer_loop.simps [simp del]

text \<open>\<^verbatim>\<open>tokens.clear()\<close>, then the loop from position 0.\<close>

definition tokenizer :: "string \<Rightarrow> char \<Rightarrow> error + string list" where
  "tokenizer str sep = tokenizer_loop str sep 0 []"

section \<open>Reading a file line by line\<close>

text \<open>
  Both readers open the file and run \<^verbatim>\<open>while (!file.eof()) { getline(file, line); ... }\<close>.
  A file system is a partial map from names to contents. \<open>getline\<close> reads up to the next
  newline, which it consumes and does not store, and returns the rest of the stream;
  \<open>None\<close> for the rest means the end of the file was reached, which sets \<^verbatim>\<open>eofbit\<close>. At
  the end of a file that ends in a newline the flag is not set yet, so the loop runs once
  more on an empty line. \<open>file_lines\<close> is the sequence of lines the loop's body sees.
\<close>

type_synonym filesystem = "string \<Rightarrow> string option"

fun getline :: "string \<Rightarrow> string \<times> string option" where
  "getline [] = ([], None)"
| "getline (c # cs) =
     (if c = CHR 0x0A then ([], Some cs)
      else (case getline cs of (l, rest) \<Rightarrow> (c # l, rest)))"

lemma getline_rest_shorter: "getline s = (l, Some rest) \<Longrightarrow> length rest < length s"
  by (induction s arbitrary: l) (auto split: if_splits prod.splits)

function file_lines :: "string \<Rightarrow> string list" where
  "file_lines s =
     (case getline s of
        (l, None) \<Rightarrow> [l]
      | (l, Some rest) \<Rightarrow> l # file_lines rest)"
  by pat_completeness auto
termination
  by (relation "measure length") (auto dest: getline_rest_shorter [OF sym])

declare file_lines.simps [simp del]

text \<open>The test \<^verbatim>\<open>line.length() == 0 || line[0] == '#' || line[0] == '!'\<close> that makes the
  CSV loops \<^verbatim>\<open>continue\<close>.\<close>

definition skipped :: "string \<Rightarrow> bool" where
  "skipped line = (length line = 0 \<or> line ! 0 = CHR ''#'' \<or> line ! 0 = CHR ''!'')"

section \<open>CSV reader with per-column types\<close>

text \<open>
  \<^verbatim>\<open>CSVFileReader<TYPES...>\<close>: the template arguments are the list of column types. A
  column is \<^verbatim>\<open>std::string\<close>, a floating-point type, \<^verbatim>\<open>bool\<close>, or an integral type given
  by its signedness and its width in bits; \<^verbatim>\<open>sizeof(VAL_TYPE) > sizeof(int)\<close> is
  \<open>32 < bits\<close>. \<open>to_integral\<close> is the conversion \<^verbatim>\<open>VAL_TYPE(...)\<close> of an integer, modulo
  \<open>2 ^ bits\<close>.
\<close>

datatype coltype = TString | TFloating | TBool | TIntegral bool nat

datatype field = FString string | FFloating cdouble | FIntegral int

definition to_integral :: "bool \<Rightarrow> nat \<Rightarrow> int \<Rightarrow> int" where
  "to_integral sg bits v =
     (if sg then (v + 2 ^ (bits - 1)) mod 2 ^ bits - 2 ^ (bits - 1) else v mod 2 ^ bits)"

text \<open>The branches of \<^verbatim>\<open>_copyToTuple\<close> on the type of the column.\<close>

fun decode :: "coltype \<Rightarrow> string \<Rightarrow> field" where
  "decode TString tok = FString tok"
| "decode TFloating tok = FFloating (atof tok)"
| "decode TBool tok = FIntegral (if atoi tok \<noteq> 0 then 1 else 0)"
| "decode (TIntegral sg bits) tok =
     FIntegral (to_integral sg bits (if 32 < bits then atol tok else atoi tok))"

text \<open>A value-initialised tuple element, as \<^verbatim>\<open>std::tuple<TYPES...> rec;\<close> leaves it.\<close>

fun default_field :: "coltype \<Rightarrow> field" where
  "default_field TString = FString []"
| "default_field TFloating = FFloating (Finite 0)"
| "default_field TBool = FIntegral 0"
| "default_field (TIntegral sg bits) = FIntegral 0"

text \<open>\<^verbatim>\<open>_copyToTuple<POS>\<close>: writes element \<open>POS\<close> of the tuple from \<^verbatim>\<open>strValues[POS]\<close> and
  goes on to \<open>POS + 1\<close> while that is below the number of types.\<close>

function copyToTuple :: "coltype list \<Rightarrow> nat \<Rightarrow> field list \<Rightarrow> string list \<Rightarrow> error + field list" where
  "copyToTuple types pos tuple strValues =
     (if pos < length strValues
      then (let tuple' = tuple[pos := decode (types ! pos) (strValues ! pos)]
            in if pos + 1 < length types then copyToTuple types (pos + 1) tuple' strValues
               else Inr tuple')
      else Inl OutOfBounds)"
  by pat_completeness auto
termination
  by (relation "measure (\<lambda>(types, pos, tuple, strValues). length types - pos)") auto

declare copyToTuple.simps [simp del]

text \<open>
  The constructor's loop over the lines, with \<^verbatim>\<open>_records\<close> as its state. The result is
  the exception thrown, if any, and \<^verbatim>\<open>_records\<close> as the constructor leaves it: on a row of
  the wrong width the code computes the reported line from \<^verbatim>\<open>_records.size() + 1\<close>,
  clears \<^verbatim>\<open>_records\<close> and throws.
\<close>

fun hetero_loop ::
  "coltype list \<Rightarrow> char \<Rightarrow> string list \<Rightarrow> field list list \<Rightarrow> error option \<times> field list list" where
  "hetero_loop types separator [] records = (None, records)"
| "hetero_loop types separator (line # rest) records =
     (if skipped line then hetero_loop types separator rest records
      else (case tokenizer line separator of
              Inl e \<Rightarrow> (Some e, records)
            | Inr strValues \<Rightarrow>
                if length strValues \<noteq> length types
                then (Some (InconsistentCSV (length records + 1) (length strValues) (length types)), [])
                else (case copyToTuple types 0 (map default_field types) strValues of
                        Inl e \<Rightarrow> (Some e, records)
                      | Inr rec \<Rightarrow> hetero_loop types separator rest (records @ [rec]))))"

definition CSVFileReader ::
  "coltype list \<Rightarrow> filesystem \<Rightarrow> string \<Rightarrow> char \<Rightarrow> error option \<times> field list list" where
  "CSVFileReader types fs fileName separator =
     (case fs fileName of
        None \<Rightarrow> (Some (FileCannotBeOpened fileName), [])
      | Some content \<Rightarrow> hetero_loop types separator (file_lines content) [])"

text \<open>\<^verbatim>\<open>size()\<close> and \<^verbatim>\<open>cols()\<close> of the typed reader: \<^verbatim>\<open>_records.size()\<close> and
  \<^verbatim>\<open>sizeof...(TYPES)\<close>.\<close>

definition size_records :: "'r list \<Rightarrow> nat" where
  "size_records records = length records"

definition cols_types :: "coltype list \<Rightarrow> nat" where
  "cols_types types = length types"

section \<open>CSV reader specialised to one type\<close>

text \<open>
  \<^verbatim>\<open>CSVFileReader<TYPE>\<close> pushes the token vector itself into \<^verbatim>\<open>_records\<close>, so a record
  is the list of the line's tokens. \<open>numValues\<close> is the constructor's third argument,
  0 meaning that the first record fixes it.
\<close>

fun homo_loop ::
  "char \<Rightarrow> string list \<Rightarrow> nat \<Rightarrow> string list list \<Rightarrow> error option \<times> string list list" where
  "homo_loop separator [] numValues records = (None, records)"
| "homo_loop separator (line # rest) numValues records =
     (if skipped line then homo_loop separator rest numValues records
      else (case tokenizer line separator of
              Inl e \<Rightarrow> (Some e, records)
            | Inr values \<Rightarrow>
                (let numValues' =
                       (if length records = 0 \<and> numValues = 0 then length values else numValues)
                 in if length values \<noteq> numValues'
                    then (Some (InconsistentCSV (length records + 1) (length values) numValues'), [])
                    else homo_loop separator rest numValues' (records @ [values]))))"

definition CSVFileReader1 ::
  "filesystem \<Rightarrow> string \<Rightarrow> char \<Rightarrow> nat \<Rightarrow> error option \<times> string list list" where
  "CSVFileReader1 fs fileName separator numValues =
     (case fs fileName of
        None \<Rightarrow> (Some (FileCannotBeOpened fileName), [])
      | Some content \<Rightarrow> homo_loop separator (file_lines content) numValues [])"

text \<open>\<^verbatim>\<open>cols()\<close> of the specialisation is \<^verbatim>\<open>_records[0].size()\<close>: a read of element 0 of
  the vector of records.\<close>

definition cols_records :: "'a list list \<Rightarrow> error + nat" where
  "cols_records records =
     (if 0 < length records then Inr (length (records ! 0)) else Inl OutOfBounds)"

section \<open>Properties reader\<close>

text \<open>
  \<^verbatim>\<open>_properties\<close> is a \<^verbatim>\<open>std::multimap<std::string, std::string>\<close>: its entries are
  kept in ascending order of the key (\<^verbatim>\<open>std::less<std::string>\<close>, the lexicographic order
  of the bytes), and \<^verbatim>\<open>insert\<close> puts a new entry after the entries whose key is equal.
  The model is the list of entries in iteration order.
\<close>

type_synonym properties = "(string \<times> string) list"

fun mm_insert :: "string \<times> string \<Rightarrow> properties \<Rightarrow> properties" where
  "mm_insert kv [] = [kv]"
| "mm_insert kv (x # xs) = (if fst kv < fst x then kv # x # xs else x # mm_insert kv xs)"

text \<open>\<^verbatim>\<open>equal_range(key)\<close>: from the first entry whose key is not below \<open>key\<close> up to the
  first entry whose key is above it.\<close>

definition equal_range :: "string \<Rightarrow> properties \<Rightarrow> properties" where
  "equal_range key props =
     takeWhile (\<lambda>kv. \<not> key < fst kv) (dropWhile (\<lambda>kv. fst kv < key) props)"

text \<open>The scan for the key:
  \<^verbatim>\<open>while (line[i] != separator && i < line.length()) { if (line[i]<0 || !isspace(line[i])) key.push_back(line[i]); ++i; }\<close>\<close>

function key_loop :: "string \<Rightarrow> char \<Rightarrow> nat \<Rightarrow> string \<Rightarrow> error + nat \<times> string" where
  "key_loop line separator i key =
     (case string_at line i of
        Inl e \<Rightarrow> Inl e
      | Inr c \<Rightarrow>
          if c \<noteq> separator \<and> i < length line
          then key_loop line separator (i + 1)
                 (if is_negative c \<or> \<not> isspace c then key @ [c] else key)
          else Inr (i, key))"
  by pat_completeness auto
termination
  by (relation "measure (\<lambda>(line, separator, i, key). length line - i)") auto

declare key_loop.simps [simp del]

lemma string_at_blank_in_range:
  "string_at str j = Inr c \<Longrightarrow> is_negative c \<or> isspace c \<Longrightarrow> j < length str"
  by (auto simp: string_at_def is_negative_def isspace_def split: if_splits)

text \<open>\<^verbatim>\<open>while (line[++i] < 0 || isspace(line[i]));\<close> returns the index it stops at.\<close>

function skip_leading :: "string \<Rightarrow> nat \<Rightarrow> error + nat" where
  "skip_leading line i =
     (case string_at line (i + 1) of
        Inl e \<Rightarrow> Inl e
      | Inr c \<Rightarrow> if is_negative c \<or> isspace c then skip_leading line (i + 1) else Inr (i + 1))"
  by pat_completeness auto
termination
  by (relation "measure (\<lambda>(line, i). length line - i)")
     (auto dest: string_at_blank_in_range)

declare skip_leading.simps [simp del]

text \<open>\<^verbatim>\<open>while (value[--i]<0 || isspace(value[i]));\<close> on the unsigned \<open>i\<close>: decrementing 0
  gives \<^verbatim>\<open>SIZE_MAX\<close>, an index beyond every string.\<close>

function trim_trailing :: "string \<Rightarrow> nat \<Rightarrow> error + nat" where
  "trim_trailing val i =
     (if i = 0 then Inl OutOfBounds
      else (case string_at val (i - 1) of
              Inl e \<Rightarrow> Inl e
            | Inr c \<Rightarrow>
                if is_negative c \<or> isspace c then trim_trailing val (i - 1) else Inr (i - 1)))"
  by pat_completeness auto
termination
  by (relation "measure (\<lambda>(val, i). i)") auto

declare trim_trailing.simps [simp del]

text \<open>The \<^verbatim>\<open>catch (std::exception& e)\<close> clauses: an exception becomes a
  \<^verbatim>\<open>runtime_error\<close>; an access out of bounds is no exception and is not caught.\<close>

definition rethrow :: "error \<Rightarrow> error" where
  "rethrow e = (case e of OutOfBounds \<Rightarrow> OutOfBounds | _ \<Rightarrow> RuntimeError e)"

text \<open>The body of the constructor's loop for one line: \<open>Inr None\<close> is the
  \<^verbatim>\<open>continue\<close> of a line that is no property, \<open>Inr (Some (key, value))\<close> the pair it
  inserts.\<close>

definition read_property :: "char \<Rightarrow> string \<Rightarrow> error + (string \<times> string) option" where
  "read_property separator line =
     (case key_loop line separator 0 [] of
        Inl e \<Rightarrow> Inl e
      | Inr (i, key) \<Rightarrow>
          if length key = 0 \<or> key ! 0 = CHR ''#'' \<or> key ! 0 = CHR ''!''
             \<or> length key = length line
          then Inr None
          else (case skip_leading line i of
                  Inl e \<Rightarrow> Inl e
                | Inr i1 \<Rightarrow>
                    (case substr line i1 (length line) of
                       Inl e \<Rightarrow> Inl e
                     | Inr val \<Rightarrow>
                         (case trim_trailing val (length val) of
                            Inl e \<Rightarrow> Inl e
                          | Inr i2 \<Rightarrow>
                              (case erase_from val (i2 + 1) of
                                 Inl e \<Rightarrow> Inl e
                               | Inr val' \<Rightarrow> Inr (Some (key, val')))))))"

fun properties_loop :: "char \<Rightarrow> string list \<Rightarrow> properties \<Rightarrow> error + properties" where
  "properties_loop separator [] props = Inr props"
| "properties_loop separator (line # rest) props =
     (case read_property separator line of
        Inl e \<Rightarrow> Inl (rethrow e)
      | Inr None \<Rightarrow> properties_loop separator rest props
      | Inr (Some kv) \<Rightarrow> properties_loop separator rest (mm_insert kv props))"

definition PropertiesFileReader :: "filesystem \<Rightarrow> string \<Rightarrow> char \<Rightarrow> error + properties" where
  "PropertiesFileReader fs fileName separator =
     (case fs fileName of
        None \<Rightarrow> Inl (FileCannotBeOpened fileName)
      | Some content \<Rightarrow> properties_loop separator (file_lines content) [])"

text \<open>\<^verbatim>\<open>keys()\<close>: one pass over the entries, pushing a key when the result is empty or
  ends in another key.\<close>

fun keys_loop :: "properties \<Rightarrow> string list \<Rightarrow> string list" where
  "keys_loop [] res = res"
| "keys_loop (kv # rest) res =
     keys_loop rest (if length res = 0 \<or> last res \<noteq> fst kv then res @ [fst kv] else res)"

definition keys :: "properties \<Rightarrow> string list" where
  "keys props = keys_loop props []"

text \<open>\<^verbatim>\<open>values<TYPE>(key)\<close> and \<^verbatim>\<open>value<TYPE>(key)\<close>: the conversion of an entry's value
  has the branches of \<open>decode\<close>, on \<^verbatim>\<open>TYPE\<close>.\<close>

definition values_of :: "coltype \<Rightarrow> properties \<Rightarrow> string \<Rightarrow> field list" where
  "values_of ty props key = map (\<lambda>kv. decode ty (snd kv)) (equal_range key props)"


section \<open>Notions of the specification\<close>

text \<open>
  The definitions of this section are not translations of code: they say, in the
  specification's words, what the code is compared with.
  \<^item> \<open>split_on c s\<close>: the substrings of \<open>s\<close> between the occurrences of \<open>c\<close>, in order,
    empty ones included; \<open>join_with c\<close> puts them together again with one \<open>c\<close> between
    neighbours.
  \<^item> \<open>data_lines\<close>: the lines of a file that are neither empty nor comments (a first
    character \<open>#\<close> or \<open>!\<close>); \<open>token_count\<close>: the number of tokens of a line.
  \<^item> \<open>established_cols\<close>: the column count of the one-type reader, given explicitly or,
    for the argument 0, taken from the first data line.
  \<^item> \<open>one_file name content\<close>: a file system holding a single file.
  \<^item> \<open>has_int_prefix\<close> and \<open>has_float_prefix\<close>: the token has a numeric prefix, that is,
    after white space and an optional sign it starts with a digit or, for a
    floating-point number, with a point and a digit, an infinity or a NaN;
    \<open>starts_with_digit\<close> and \<open>continues_number\<close>: the text after a run of digits would
    extend the number.
  \<^item> \<open>key_text\<close>: the text of a line before its first separator, white space removed;
    \<open>value_text\<close>: the text after that separator, trimmed at both ends of the
    characters the code skips (\<open>blank\<close>: white space and bytes from 128);
    \<open>not_a_property\<close>: the key is empty or starts with \<open>#\<close> or \<open>!\<close>.
  \<^item> \<open>file_pairs\<close>: the pairs the lines of a properties file yield, in file order;
    \<open>first_insertion_keys\<close>: their keys, each once, in the order of first appearance.
\<close>

fun split_on :: "char \<Rightarrow> string \<Rightarrow> string list" where
  "split_on c [] = [[]]"
| "split_on c (x # xs) =
     (if x = c then [] # split_on c xs
      else (case split_on c xs of t # ts \<Rightarrow> (x # t) # ts | [] \<Rightarrow> [[x]]))"

fun join_with :: "char \<Rightarrow> string list \<Rightarrow> string" where
  "join_with c [] = []"
| "join_with c [t] = t"
| "join_with c (t # ts) = t @ c # join_with c ts"

definition data_lines :: "string \<Rightarrow> string list" where
  "data_lines content = filter (\<lambda>line. \<not> skipped line) (file_lines content)"

definition token_count :: "char \<Rightarrow> string \<Rightarrow> nat" where
  "token_count separator line =
     (case tokenizer line separator of Inl e \<Rightarrow> 0 | Inr tokens \<Rightarrow> length tokens)"

definition established_cols :: "char \<Rightarrow> string \<Rightarrow> nat \<Rightarrow> nat" where
  "established_cols separator content numValues =
     (if numValues = 0
      then (case data_lines content of [] \<Rightarrow> 0 | l # rest \<Rightarrow> token_count separator l)
      else numValues)"

definition one_file :: "string \<Rightarrow> string \<Rightarrow> filesystem" where
  "one_file name content = (\<lambda>n. if n = name then Some content else None)"

fun file_pairs :: "char \<Rightarrow> string list \<Rightarrow> properties" where
  "file_pairs separator [] = []"
| "file_pairs separator (line # rest) =
     (case read_property separator line of
        Inr (Some kv) \<Rightarrow> kv # file_pairs separator rest
      | _ \<Rightarrow> file_pairs separator rest)"

definition first_insertion_keys :: "properties \<Rightarrow> string list" where
  "first_insertion_keys pairs = rev (remdups (rev (map fst pairs)))"






definition blank :: "char \<Rightarrow> bool" where
  "blank c = (is_negative c \<or> isspace c)"

definition key_text :: "char \<Rightarrow> string \<Rightarrow> string" where
  "key_text separator line =
     filter (\<lambda>c. is_negative c \<or> \<not> isspace c) (takeWhile (\<lambda>c. c \<noteq> separator) line)"

definition trim :: "string \<Rightarrow> string" where
  "trim s = rev (dropWhile blank (rev (dropWhile blank s)))"

definition value_text :: "char \<Rightarrow> string \<Rightarrow> string" where
  "value_text separator line =
     trim (drop (Suc (length (takeWhile (\<lambda>c. c \<noteq> separator) line))) line)"

definition not_a_property :: "char \<Rightarrow> string \<Rightarrow> bool" where
  "not_a_property separator line =
     (key_text separator line = [] \<or> key_text separator line ! 0 = CHR ''#''
      \<or> key_text separator line ! 0 = CHR ''!'')"

section \<open>The tokenizer splits on every separator\<close>

lemma split_on_nonempty: "split_on c s \<noteq> []"
  by (induction s) (auto split: list.splits)

lemma split_on_no_sep: "c \<notin> set a \<Longrightarrow> split_on c a = [a]"
  by (induction a) auto

lemma split_on_at_sep: "c \<notin> set a \<Longrightarrow> split_on c (a @ c # b) = a # split_on c b"
  by (induction a) auto

lemma find_char_None:
  "find_char str c pos = None \<Longrightarrow> pos \<le> j \<Longrightarrow> j < length str \<Longrightarrow> str ! j \<noteq> c"
proof (induction str c pos rule: find_char.induct)
  case (1 str c pos)
  from "1.prems" have p: "pos < length str" by simp
  from "1.prems"(1) p have ne: "str ! pos \<noteq> c" and r: "find_char str c (pos + 1) = None"
    by (auto simp: find_char.simps [of str c pos] split: if_splits)
  show ?case
  proof (cases "j = pos")
    case True
    with ne show ?thesis by simp
  next
    case False
    with "1.prems" have "pos + 1 \<le> j" by simp
    from "1.IH" [OF p ne r this "1.prems"(3)] show ?thesis .
  qed
qed

lemma find_char_None_set:
  assumes "find_char str c pos = None"
  shows "c \<notin> set (drop pos str)"
proof
  assume "c \<in> set (drop pos str)"
  then obtain i where i: "i < length str - pos" and e: "str ! (pos + i) = c"
    by (auto simp: in_set_conv_nth)
  from i have "pos \<le> pos + i" and "pos + i < length str" by arith+
  from find_char_None [OF assms this] e show False by simp
qed

lemma find_char_Some_split:
  assumes "find_char str c pos = Some q"
  shows "drop pos str = take (q - pos) (drop pos str) @ c # drop (q + 1) str"
    and "c \<notin> set (take (q - pos) (drop pos str))"
proof -
  from find_char_Some [OF assms]
  have f: "pos \<le> q" "q < length str" "str ! q = c" "\<forall>j. pos \<le> j \<and> j < q \<longrightarrow> str ! j \<noteq> c"
    by auto
  have "drop pos str = take (q - pos) (drop pos str) @ drop (q - pos) (drop pos str)"
    by (rule append_take_drop_id [symmetric])
  also have "drop (q - pos) (drop pos str) = drop q str" using f(1) by simp
  also have "drop q str = str ! q # drop (Suc q) str" using f(2) by (simp add: Cons_nth_drop_Suc)
  finally show "drop pos str = take (q - pos) (drop pos str) @ c # drop (q + 1) str"
    using f(3) by simp
  show "c \<notin> set (take (q - pos) (drop pos str))"
  proof
    assume "c \<in> set (take (q - pos) (drop pos str))"
    then obtain i where i: "i < length (take (q - pos) (drop pos str))"
      and e: "take (q - pos) (drop pos str) ! i = c"
      by (auto simp: in_set_conv_nth)
    from i have "i < q - pos" by simp
    with e f(2) have "str ! (pos + i) = c" by simp
    moreover from \<open>i < q - pos\<close> have "pos \<le> pos + i \<and> pos + i < q" by arith
    ultimately show False using f(4) by blast
  qed
qed

lemma tokenizer_loop_split:
  "init_pos \<le> length str \<Longrightarrow>
     tokenizer_loop str sep init_pos tokens = Inr (tokens @ split_on sep (drop init_pos str))"
proof (induction str sep init_pos tokens rule: tokenizer_loop.induct)
  case (1 str sep init_pos tokens)
  show ?case
  proof (cases "find_char str sep init_pos")
    case None
    then have "sep \<notin> set (drop init_pos str)" by (rule find_char_None_set)
    then have "split_on sep (drop init_pos str) = [drop init_pos str]" by (rule split_on_no_sep)
    with None "1.prems" show ?thesis
      by (simp add: tokenizer_loop.simps [of str sep init_pos tokens] substr_def)
  next
    case (Some pos)
    from find_char_Some [OF Some] have b: "init_pos \<le> pos" "pos < length str" by auto
    let ?t = "take (pos - init_pos) (drop init_pos str)"
    have s: "substr str init_pos (pos - init_pos) = Inr ?t"
      using "1.prems" by (simp add: substr_def)
    from b have "pos + 1 \<le> length str" by simp
    from "1.IH" [OF Some s this]
    have ih: "tokenizer_loop str sep (pos + 1) (tokens @ [?t])
                = Inr ((tokens @ [?t]) @ split_on sep (drop (pos + 1) str))" .
    from find_char_Some_split [OF Some]
    have "split_on sep (drop init_pos str) = ?t # split_on sep (drop (pos + 1) str)"
      using split_on_at_sep by metis
    with Some s ih show ?thesis
      by (simp add: tokenizer_loop.simps [of str sep init_pos tokens])
  qed
qed

lemma tokenizer_split_on: "tokenizer str sep = Inr (split_on sep str)"
  by (simp add: tokenizer_def tokenizer_loop_split)

lemma join_with_split_on: "join_with c (split_on c s) = s"
proof (induction s)
  case Nil
  show ?case by simp
next
  case (Cons x xs)
  obtain t ts where sp: "split_on c xs = t # ts"
    using split_on_nonempty [of c xs] by (cases "split_on c xs") auto
  with Cons show ?case by (cases ts) auto
qed

lemma no_sep_in_split_on: "c \<notin> set (concat (split_on c s))"
  by (induction s) (auto split: list.splits)

lemma length_split_on: "length (split_on c s) = Suc (count_list s c)"
  by (induction s) (auto split: list.splits simp: split_on_nonempty)

lemma token_count_split_on: "token_count separator line = length (split_on separator line)"
  by (simp add: token_count_def tokenizer_split_on)

lemma token_count_pos: "0 < token_count separator l"
  using split_on_nonempty [of separator l] by (simp add: token_count_split_on)

text \<open>
  Claim C4. For every string \<open>s\<close> and separator \<open>c\<close> the tokenizer returns, without an
  error, the substrings of \<open>s\<close> split on every occurrence of \<open>c\<close>, in order: joining the
  tokens with \<open>c\<close> gives \<open>s\<close> back, no token contains \<open>c\<close>, and there is one token more than
  there are occurrences of \<open>c\<close>, so empty substrings are kept and the last token runs to
  the end of the string. \<^verbatim>\<open>"a;;b"\<close> gives \<^verbatim>\<open>["a","","b"]\<close>, \<^verbatim>\<open>"a;b;"\<close> gives
  \<^verbatim>\<open>["a","b",""]\<close>, and the empty string gives one empty token.
\<close>

theorem tokenizer_splits_on_every_separator:
  "tokenizer s c = Inr (split_on c s)
   \<and> join_with c (split_on c s) = s
   \<and> c \<notin> set (concat (split_on c s))
   \<and> length (split_on c s) = Suc (count_list s c)
   \<and> tokenizer ''a;;b'' (CHR '';'') = Inr [''a'', '''', ''b'']
   \<and> tokenizer ''a;b;'' (CHR '';'') = Inr [''a'', ''b'', '''']
   \<and> tokenizer '''' c = Inr ['''']"
  by (intro conjI tokenizer_split_on join_with_split_on no_sep_in_split_on length_split_on)
     (simp_all add: tokenizer_split_on)

section \<open>Rows of the CSV readers\<close>

lemma copyToTuple_succeeds:
  "pos < length strValues \<Longrightarrow> length strValues = length types \<Longrightarrow>
     \<exists>rec. copyToTuple types pos tuple strValues = Inr rec"
proof (induction types pos tuple strValues rule: copyToTuple.induct)
  case (1 types pos tuple strValues)
  let ?t = "tuple[pos := decode (types ! pos) (strValues ! pos)]"
  show ?case
  proof (cases "pos + 1 < length types")
    case False
    with "1.prems" show ?thesis
      by (simp add: copyToTuple.simps [of types pos tuple strValues])
  next
    case True
    with "1.prems" have "pos + 1 < length strValues" by simp
    from "1.IH" [OF "1.prems"(1) refl True this "1.prems"(2)]
    obtain rec where "copyToTuple types (pos + 1) ?t strValues = Inr rec" by blast
    with True "1.prems" show ?thesis
      by (simp add: copyToTuple.simps [of types pos tuple strValues] Let_def)
  qed
qed

lemma hetero_loop_first_violation:
  assumes "\<forall>l \<in> set pre. \<not> skipped l \<longrightarrow> token_count separator l = length types"
    and "\<not> skipped bad" and "token_count separator bad \<noteq> length types"
  shows "hetero_loop types separator (pre @ bad # post) records =
           (Some (InconsistentCSV (length records + length (filter (\<lambda>l. \<not> skipped l) pre) + 1)
                    (token_count separator bad) (length types)), [])"
  using assms(1)
proof (induction pre arbitrary: records)
  case Nil
  with assms(2,3) show ?case by (simp add: tokenizer_split_on token_count_split_on)
next
  case (Cons l pre)
  show ?case
  proof (cases "skipped l")
    case True
    with Cons show ?thesis by simp
  next
    case False
    with Cons.prems have n: "length (split_on separator l) = length types"
      by (simp add: token_count_split_on)
    have "0 < length (split_on separator l)" using split_on_nonempty [of separator l] by simp
    from copyToTuple_succeeds [OF this n]
    obtain rec where r: "copyToTuple types 0 (map default_field types) (split_on separator l) = Inr rec"
      by blast
    from Cons.prems have "\<forall>l \<in> set pre. \<not> skipped l \<longrightarrow> token_count separator l = length types"
      by simp
    from Cons.IH [OF this, of "records @ [rec]"] False n r show ?thesis
      by (simp add: tokenizer_split_on)
  qed
qed

lemma hetero_loop_all_rows_fit:
  assumes "\<forall>l \<in> set lines. \<not> skipped l \<longrightarrow> token_count separator l = length types"
  shows "\<exists>out. hetero_loop types separator lines records = (None, out)
           \<and> length out = length records + length (filter (\<lambda>l. \<not> skipped l) lines)"
  using assms
proof (induction lines arbitrary: records)
  case Nil
  show ?case by simp
next
  case (Cons l lines)
  show ?case
  proof (cases "skipped l")
    case True
    with Cons show ?thesis by simp
  next
    case False
    with Cons.prems have n: "length (split_on separator l) = length types"
      by (simp add: token_count_split_on)
    have "0 < length (split_on separator l)" using split_on_nonempty [of separator l] by simp
    from copyToTuple_succeeds [OF this n]
    obtain rec where r: "copyToTuple types 0 (map default_field types) (split_on separator l) = Inr rec"
      by blast
    from Cons.prems have "\<forall>l \<in> set lines. \<not> skipped l \<longrightarrow> token_count separator l = length types"
      by simp
    from Cons.IH [OF this, of "records @ [rec]"] False n r show ?thesis
      by (auto simp add: tokenizer_split_on)
  qed
qed

lemma homo_loop_first_violation:
  assumes "\<forall>l \<in> set pre. \<not> skipped l \<longrightarrow> token_count separator l = n"
    and "\<not> skipped bad" and "token_count separator bad \<noteq> n" and "0 < n"
  shows "homo_loop separator (pre @ bad # post) n records =
           (Some (InconsistentCSV (length records + length (filter (\<lambda>l. \<not> skipped l) pre) + 1)
                    (token_count separator bad) n), [])"
  using assms(1)
proof (induction pre arbitrary: records)
  case Nil
  with assms(2,3,4) show ?case by (simp add: tokenizer_split_on token_count_split_on)
next
  case (Cons l pre)
  show ?case
  proof (cases "skipped l")
    case True
    with Cons show ?thesis by simp
  next
    case False
    with Cons.prems have n: "length (split_on separator l) = n"
      by (simp add: token_count_split_on)
    from Cons.prems have "\<forall>l \<in> set pre. \<not> skipped l \<longrightarrow> token_count separator l = n"
      by simp
    from Cons.IH [OF this, of "records @ [split_on separator l]"] False n assms(4) show ?thesis
      by (simp add: tokenizer_split_on)
  qed
qed

lemma homo_loop_all_rows_fit:
  assumes "\<forall>l \<in> set lines. \<not> skipped l \<longrightarrow> token_count separator l = n" and "0 < n"
  shows "\<exists>out. homo_loop separator lines n records = (None, out)
           \<and> length out = length records + length (filter (\<lambda>l. \<not> skipped l) lines)"
  using assms(1)
proof (induction lines arbitrary: records)
  case Nil
  show ?case by simp
next
  case (Cons l lines)
  show ?case
  proof (cases "skipped l")
    case True
    with Cons show ?thesis by simp
  next
    case False
    with Cons.prems have n: "length (split_on separator l) = n"
      by (simp add: token_count_split_on)
    from Cons.prems have "\<forall>l \<in> set lines. \<not> skipped l \<longrightarrow> token_count separator l = n"
      by simp
    from Cons.IH [OF this, of "records @ [split_on separator l]"] False n assms(2) show ?thesis
      by (auto simp add: tokenizer_split_on)
  qed
qed

text \<open>With the count left to the file, the first record fixes it.\<close>

lemma homo_loop_skipped_prefix:
  "\<forall>l \<in> set pre. skipped l \<Longrightarrow>
     homo_loop separator (pre @ rest) n records = homo_loop separator rest n records"
  by (induction pre) auto

lemma homo_loop_infers:
  assumes "\<not> skipped l"
  shows "homo_loop separator (l # rest) 0 [] =
           homo_loop separator rest (token_count separator l) [split_on separator l]"
  using assms by (simp add: tokenizer_split_on token_count_split_on)

lemma homo_loop_explicit_first:
  assumes "\<not> skipped l" and "token_count separator l = n"
  shows "homo_loop separator (l # rest) n [] =
           homo_loop separator rest n [split_on separator l]"
  using assms by (auto simp add: tokenizer_split_on token_count_split_on Let_def)


lemma homo_loop_sentinel_agrees:
  assumes "homo_loop separator lines n [] = (None, out)"
  shows "homo_loop separator lines 0 [] = (None, out)"
  using assms
proof (induction lines)
  case Nil
  then show ?case by simp
next
  case (Cons l lines)
  show ?case
  proof (cases "skipped l")
    case True
    with Cons show ?thesis by simp
  next
    case False
    show ?thesis
    proof (cases "n = 0")
      case True
      with Cons.prems show ?thesis by simp
    next
      case n: False
      show ?thesis
      proof (cases "token_count separator l = n")
        case True
        with Cons.prems False homo_loop_explicit_first [OF False True, of lines]
          homo_loop_infers [OF False, of separator lines]
        show ?thesis by simp
      next
        case ne: False
        with False n Cons.prems show ?thesis
          by (simp add: tokenizer_split_on token_count_split_on Let_def)
      qed
    qed
  qed
qed

lemma first_violation_split:
  assumes "\<exists>l \<in> set lines. \<not> skipped l \<and> token_count separator l \<noteq> n"
  shows "\<exists>pre bad post. lines = pre @ bad # post
           \<and> (\<forall>l \<in> set pre. \<not> skipped l \<longrightarrow> token_count separator l = n)
           \<and> \<not> skipped bad \<and> token_count separator bad \<noteq> n"
proof -
  from split_list_first_prop [OF assms]
  obtain pre bad post where "lines = pre @ bad # post"
    and "\<not> skipped bad \<and> token_count separator bad \<noteq> n"
    and "\<forall>l \<in> set pre. \<not> (\<not> skipped l \<and> token_count separator l \<noteq> n)"
    by blast
  then show ?thesis by blast
qed

lemma hetero_loop_violation:
  assumes "\<exists>l \<in> set lines. \<not> skipped l \<and> token_count separator l \<noteq> length types"
  shows "\<exists>line actual. hetero_loop types separator lines records =
           (Some (InconsistentCSV line actual (length types)), [])"
proof -
  from first_violation_split [OF assms]
  obtain pre bad post where "lines = pre @ bad # post"
    and "\<forall>l \<in> set pre. \<not> skipped l \<longrightarrow> token_count separator l = length types"
    and "\<not> skipped bad" and "token_count separator bad \<noteq> length types"
    by blast
  then show ?thesis using hetero_loop_first_violation by blast
qed

lemma homo_loop_violation:
  assumes "\<exists>l \<in> set lines. \<not> skipped l \<and> token_count separator l \<noteq> n" and "0 < n"
  shows "\<exists>line actual. homo_loop separator lines n records =
           (Some (InconsistentCSV line actual n), [])"
proof -
  from first_violation_split [OF assms(1)]
  obtain pre bad post where "lines = pre @ bad # post"
    and "\<forall>l \<in> set pre. \<not> skipped l \<longrightarrow> token_count separator l = n"
    and "\<not> skipped bad" and "token_count separator bad \<noteq> n"
    by blast
  then show ?thesis using homo_loop_first_violation [OF _ _ _ assms(2)] by blast
qed

lemma first_data_line_split:
  assumes "filter (\<lambda>l. \<not> skipped l) lines = l0 # ds"
  shows "\<exists>pre rest. lines = pre @ l0 # rest \<and> (\<forall>l \<in> set pre. skipped l) \<and> \<not> skipped l0
           \<and> ds = filter (\<lambda>l. \<not> skipped l) rest"
  using assms
proof (induction lines)
  case Nil
  then show ?case by simp
next
  case (Cons l lines)
  show ?case
  proof (cases "skipped l")
    case True
    with Cons.prems have "filter (\<lambda>l. \<not> skipped l) lines = l0 # ds" by simp
    from Cons.IH [OF this] obtain pre rest where "lines = pre @ l0 # rest"
      and "\<forall>l \<in> set pre. skipped l" and "\<not> skipped l0" and "ds = filter (\<lambda>l. \<not> skipped l) rest"
      by blast
    with True have "l # lines = (l # pre) @ l0 # rest \<and> (\<forall>x \<in> set (l # pre). skipped x)
        \<and> \<not> skipped l0 \<and> ds = filter (\<lambda>l. \<not> skipped l) rest"
      by simp
    then show ?thesis by blast
  next
    case False
    with Cons.prems have "l # lines = [] @ l0 # lines \<and> (\<forall>x \<in> set []. skipped x)
        \<and> \<not> skipped l0 \<and> ds = filter (\<lambda>l. \<not> skipped l) lines"
      by simp
    then show ?thesis by blast
  qed
qed

lemma homo_loop_violation_inferred:
  assumes d: "filter (\<lambda>l. \<not> skipped l) lines = l0 # ds"
    and v: "\<exists>l \<in> set (l0 # ds). token_count separator l \<noteq> token_count separator l0"
  shows "\<exists>line actual. homo_loop separator lines 0 [] =
           (Some (InconsistentCSV line actual (token_count separator l0)), [])"
proof -
  from first_data_line_split [OF d] obtain pre rest where l: "lines = pre @ l0 # rest"
    and p: "\<forall>l \<in> set pre. skipped l" and n: "\<not> skipped l0"
    and r: "ds = filter (\<lambda>l. \<not> skipped l) rest"
    by blast
  from v r have "\<exists>l \<in> set rest. \<not> skipped l \<and> token_count separator l \<noteq> token_count separator l0"
    by auto
  from homo_loop_violation [OF this token_count_pos]
  obtain line actual where
    "homo_loop separator rest (token_count separator l0) [split_on separator l0] =
       (Some (InconsistentCSV line actual (token_count separator l0)), [])"
    by blast
  with l homo_loop_skipped_prefix [OF p] homo_loop_infers [OF n] show ?thesis by simp
qed

text \<open>
  Claim C1. When the file opens and every line of it that is neither empty nor a comment
  tokenizes to exactly as many fields as there are declared column types, the
  constructor of the typed reader throws nothing, \<^verbatim>\<open>size()\<close> is the number of those
  lines, and \<^verbatim>\<open>cols()\<close> is the number of declared types.
\<close>

theorem CSV_typed_store_size_and_cols:
  assumes "fs fileName = Some content"
    and "\<forall>l \<in> set (data_lines content).
           \<exists>tokens. tokenizer l separator = Inr tokens \<and> length tokens = length types"
  shows "\<exists>records. CSVFileReader types fs fileName separator = (None, records)
           \<and> size_records records = length (data_lines content)
           \<and> cols_types types = length types"
proof -
  from assms(2)
  have "\<forall>l \<in> set (file_lines content). \<not> skipped l \<longrightarrow> token_count separator l = length types"
    by (auto simp: data_lines_def token_count_def)
  from hetero_loop_all_rows_fit [OF this, of "[]"] assms(1) show ?thesis
    by (simp add: CSVFileReader_def size_records_def cols_types_def data_lines_def)
qed

theorem CSV_typed_store_size_and_cols_witness:
  "\<exists>records. CSVFileReader [TIntegral True 32, TString, TFloating]
       (one_file ''test.csv'' ''# header\<newline>1;a;2.5\<newline>\<newline>2;b;x\<newline>'') ''test.csv'' (CHR '';'')
         = (None, records)
     \<and> size_records records = 2
     \<and> cols_types [TIntegral True 32, TString, TFloating] = 3"
proof -
  let ?c = "''# header\<newline>1;a;2.5\<newline>\<newline>2;b;x\<newline>''"
  have f: "one_file ''test.csv'' ?c ''test.csv'' = Some ?c" by (simp add: one_file_def)
  have d: "data_lines ?c = [''1;a;2.5'', ''2;b;x'']" by code_simp
  have t1: "tokenizer ''1;a;2.5'' (CHR '';'') = Inr [''1'', ''a'', ''2.5'']" by code_simp
  have t2: "tokenizer ''2;b;x'' (CHR '';'') = Inr [''2'', ''b'', ''x'']" by code_simp
  have h: "\<forall>l \<in> set (data_lines ?c). \<exists>tokens. tokenizer l (CHR '';'') = Inr tokens
             \<and> length tokens = length [TIntegral True 32, TString, TFloating]"
    using d t1 t2 by simp
  from CSV_typed_store_size_and_cols
         [where fs = "one_file ''test.csv'' ?c" and fileName = "''test.csv''", OF f h] d
  show ?thesis by (simp add: numeral_2_eq_2 numeral_3_eq_3)
qed

text \<open>
  Claim C2. When some data line of the file has a token count other than the column
  count of the store (the number of declared types for the typed reader; the explicit
  count, or for the argument 0 the count of the first data line, for the one-type
  reader), the constructor throws the row-count error and \<^verbatim>\<open>_records\<close> is empty when
  it does: no record read before the failure remains.
\<close>

theorem CSV_width_mismatch_leaves_no_records:
  assumes "fs fileName = Some content"
  shows "((\<exists>l \<in> set (data_lines content). token_count separator l \<noteq> length types) \<longrightarrow>
            (\<exists>line actual. CSVFileReader types fs fileName separator =
               (Some (InconsistentCSV line actual (length types)), [])))
       \<and> ((\<exists>l \<in> set (data_lines content).
              token_count separator l \<noteq> established_cols separator content numValues) \<longrightarrow>
            (\<exists>line actual. CSVFileReader1 fs fileName separator numValues =
               (Some (InconsistentCSV line actual (established_cols separator content numValues)), [])))"
proof (intro conjI impI)
  assume "\<exists>l \<in> set (data_lines content). token_count separator l \<noteq> length types"
  then have "\<exists>l \<in> set (file_lines content). \<not> skipped l \<and> token_count separator l \<noteq> length types"
    by (auto simp: data_lines_def)
  from hetero_loop_violation [OF this] assms
  show "\<exists>line actual. CSVFileReader types fs fileName separator =
          (Some (InconsistentCSV line actual (length types)), [])"
    by (simp add: CSVFileReader_def)
next
  assume v: "\<exists>l \<in> set (data_lines content).
               token_count separator l \<noteq> established_cols separator content numValues"
  show "\<exists>line actual. CSVFileReader1 fs fileName separator numValues =
          (Some (InconsistentCSV line actual (established_cols separator content numValues)), [])"
  proof (cases "numValues = 0")
    case False
    with v have "\<exists>l \<in> set (file_lines content). \<not> skipped l \<and> token_count separator l \<noteq> numValues"
      by (auto simp: data_lines_def established_cols_def)
    from homo_loop_violation [OF this] False assms show ?thesis
      by (simp add: CSVFileReader1_def established_cols_def)
  next
    case True
    from v obtain l0 ds where d: "data_lines content = l0 # ds"
      by (cases "data_lines content") auto
    with v True have "\<exists>l \<in> set (l0 # ds). token_count separator l \<noteq> token_count separator l0"
      by (simp add: established_cols_def)
    from homo_loop_violation_inferred [OF d [unfolded data_lines_def] this] True d assms
    show ?thesis
      by (simp add: CSVFileReader1_def established_cols_def)
  qed
qed

theorem CSV_width_mismatch_leaves_no_records_witness:
  "(\<exists>line actual. CSVFileReader [TIntegral True 32, TString]
       (one_file ''test.csv'' ''1;a\<newline>2;b;c\<newline>'') ''test.csv'' (CHR '';'')
         = (Some (InconsistentCSV line actual 2), []))
   \<and> (\<exists>line actual. CSVFileReader1
       (one_file ''test.csv'' ''1;a\<newline>2;b;c\<newline>'') ''test.csv'' (CHR '';'') 0
         = (Some (InconsistentCSV line actual 2), []))"
proof -
  let ?c = "''1;a\<newline>2;b;c\<newline>''"
  have f: "one_file ''test.csv'' ?c ''test.csv'' = Some ?c" by (simp add: one_file_def)
  have d: "data_lines ?c = [''1;a'', ''2;b;c'']" by code_simp
  have t: "token_count (CHR '';'') ''2;b;c'' = 3" by code_simp
  have e: "established_cols (CHR '';'') ?c 0 = 2" by code_simp
  have h1: "\<exists>l \<in> set (data_lines ?c).
              token_count (CHR '';'') l \<noteq> length [TIntegral True 32, TString]"
    using d t by simp
  have h2: "\<exists>l \<in> set (data_lines ?c).
              token_count (CHR '';'') l \<noteq> established_cols (CHR '';'') ?c 0"
    using d t e by simp
  from CSV_width_mismatch_leaves_no_records
         [where fs = "one_file ''test.csv'' ?c" and fileName = "''test.csv''"
            and separator = "CHR '';''" and types = "[TIntegral True 32, TString]"
            and numValues = 0, OF f]
       h1 h2 e
  show ?thesis by (simp add: numeral_2_eq_2)
qed

text \<open>
  Claim C6. When the constructor of the one-type reader succeeds on a file with an
  explicit column count \<open>C\<close>, it also succeeds on the same file with the count left
  unspecified (the argument 0), and the two stores have the same \<^verbatim>\<open>size()\<close> and the
  same \<^verbatim>\<open>cols()\<close>; they hold the same records.
\<close>

theorem CSV_sentinel_agrees_with_explicit_count:
  assumes "CSVFileReader1 fs fileName separator C = (None, records)"
  shows "\<exists>records'. CSVFileReader1 fs fileName separator 0 = (None, records')
           \<and> records' = records
           \<and> size_records records' = size_records records
           \<and> cols_records records' = cols_records records"
proof (cases "fs fileName")
  case None
  with assms show ?thesis by (simp add: CSVFileReader1_def)
next
  case (Some content)
  with assms have "homo_loop separator (file_lines content) C [] = (None, records)"
    by (simp add: CSVFileReader1_def)
  from homo_loop_sentinel_agrees [OF this] Some show ?thesis
    by (simp add: CSVFileReader1_def)
qed

theorem CSV_sentinel_agrees_with_explicit_count_witness:
  "\<exists>records'. CSVFileReader1 (one_file ''test.csv'' ''1;a\<newline># c\<newline>2;b'') ''test.csv'' (CHR '';'') 0
                 = (None, records')
     \<and> records' = [[''1'', ''a''], [''2'', ''b'']]
     \<and> size_records records' = size_records [[''1'', ''a''], [''2'', ''b'']]
     \<and> cols_records records' = cols_records [[''1'', ''a''], [''2'', ''b'']]"
proof -
  have "CSVFileReader1 (one_file ''test.csv'' ''1;a\<newline># c\<newline>2;b'') ''test.csv'' (CHR '';'') 2
          = (None, [[''1'', ''a''], [''2'', ''b'']])"
    by code_simp
  then show ?thesis by (rule CSV_sentinel_agrees_with_explicit_count)
qed

lemma homo_loop_all_skipped:
  "\<forall>l \<in> set lines. skipped l \<Longrightarrow> homo_loop separator lines numValues records = (None, records)"
  by (induction lines) auto

text \<open>
  Claim C10. \<^verbatim>\<open>cols()\<close> of the one-type reader reads element 0 of the vector of records
  and returns its length; the read is inside the vector exactly when \<^verbatim>\<open>size()\<close> is
  positive. On a file whose lines are all empty or comments the constructor succeeds
  with no record, whatever the column count asked for, and \<^verbatim>\<open>cols()\<close> on that store reads
  out of bounds: \<^verbatim>\<open>cols()\<close> needs a store that is not empty.
\<close>

theorem cols_reads_record_zero:
  "((\<exists>n. cols_records records = Inr n) \<longleftrightarrow> 0 < size_records records)
   \<and> (0 < size_records records \<longrightarrow> cols_records records = Inr (length (records ! 0)))
   \<and> (fs fileName = Some content \<and> (\<forall>l \<in> set (file_lines content). skipped l) \<longrightarrow>
        (\<exists>rs. CSVFileReader1 fs fileName separator numValues = (None, rs)
           \<and> size_records rs = 0 \<and> cols_records rs = Inl OutOfBounds))"
  by (auto simp: cols_records_def size_records_def CSVFileReader1_def homo_loop_all_skipped)

theorem cols_reads_record_zero_witness:
  "cols_records [[''a'', ''b'']] = Inr 2
   \<and> (\<exists>rs. CSVFileReader1 (one_file ''test.csv'' ''# c\<newline>\<newline>! d\<newline>'') ''test.csv'' (CHR '';'') 0 = (None, rs)
         \<and> size_records rs = 0 \<and> cols_records rs = Inl OutOfBounds)"
proof -
  let ?c = "''# c\<newline>\<newline>! d\<newline>''"
  have f: "one_file ''test.csv'' ?c ''test.csv'' = Some ?c" by (simp add: one_file_def)
  have l: "file_lines ?c = [''# c'', '''', ''! d'', '''']" by code_simp
  have s: "skipped ''# c'' \<and> skipped '''' \<and> skipped ''! d''" by code_simp
  have h: "\<forall>l \<in> set (file_lines ?c). skipped l" using l s by simp
  have p: "0 < size_records [[''a'', ''b'']]" by (simp add: size_records_def)
  from cols_reads_record_zero
         [where records = "[[''a'', ''b'']]" and fs = "one_file ''test.csv'' ?c"
            and fileName = "''test.csv''" and content = ?c and separator = "CHR '';''"
            and numValues = 0]
       f h p
  show ?thesis by simp
qed

text \<open>
  The number both constructors report is one more than the number of records read so
  far: the lines skipped before the offending row are not counted, while its position
  in the file is \<open>length pre + 1\<close>.
\<close>

lemma CSVFileReader_reports_record_number:
  assumes "fs fileName = Some content" and "file_lines content = pre @ bad # post"
    and "\<forall>l \<in> set pre. \<not> skipped l \<longrightarrow> token_count separator l = length types"
    and "\<not> skipped bad" and "token_count separator bad \<noteq> length types"
  shows "CSVFileReader types fs fileName separator =
           (Some (InconsistentCSV (length (filter (\<lambda>l. \<not> skipped l) pre) + 1)
                    (token_count separator bad) (length types)), [])"
  using assms(1,2) hetero_loop_first_violation [OF assms(3,4,5), of post "[]"]
  by (simp add: CSVFileReader_def)

lemma CSVFileReader1_reports_record_number:
  assumes "fs fileName = Some content" and "file_lines content = pre @ bad # post"
    and "\<forall>l \<in> set pre. \<not> skipped l \<longrightarrow> token_count separator l = n"
    and "\<not> skipped bad" and "token_count separator bad \<noteq> n" and "0 < n"
  shows "CSVFileReader1 fs fileName separator n =
           (Some (InconsistentCSV (length (filter (\<lambda>l. \<not> skipped l) pre) + 1)
                    (token_count separator bad) n), [])"
  using assms(1,2) homo_loop_first_violation [OF assms(3,4,5,6), of post "[]"]
  by (simp add: CSVFileReader1_def)

text \<open>
  Claim C3. The row-count error names the line of the file on which the first row of
  the wrong width stands, counting every line, with the row's token count and the
  expected count. The code reports \<^verbatim>\<open>_records.size() + 1\<close> instead. In the file
  \<^verbatim>\<open>"# c\na;b"\<close> the row \<^verbatim>\<open>a;b\<close> is line 2; read with three columns, the typed and the
  one-type reader both report line 1 (2 values, 3 expected). In \<^verbatim>\<open>"# c\na;b\n\nx"\<close>
  with the count inferred, the row \<^verbatim>\<open>x\<close> is line 4 and the error says line 2.
\<close>

theorem CSV_error_line_is_record_count:
  "file_lines ''# c\<newline>a;b'' = [''# c'', ''a;b'']
   \<and> CSVFileReader [TIntegral True 32, TString, TFloating]
         (one_file ''test.csv'' ''# c\<newline>a;b'') ''test.csv'' (CHR '';'')
       = (Some (InconsistentCSV 1 2 3), [])
   \<and> CSVFileReader1 (one_file ''test.csv'' ''# c\<newline>a;b'') ''test.csv'' (CHR '';'') 3
       = (Some (InconsistentCSV 1 2 3), [])
   \<and> file_lines ''# c\<newline>a;b\<newline>\<newline>x'' = [''# c'', ''a;b'', '''', ''x'']
   \<and> CSVFileReader1 (one_file ''test.csv'' ''# c\<newline>a;b\<newline>\<newline>x'') ''test.csv'' (CHR '';'') 0
       = (Some (InconsistentCSV 2 1 2), [])"
  by code_simp

section \<open>The properties store\<close>

lemma set_mm_insert: "set (mm_insert kv props) = insert kv (set props)"
  by (induction props) auto

lemma sorted_mm_insert:
  "sorted (map fst props) \<Longrightarrow> sorted (map fst (mm_insert kv props))"
  by (induction props) (auto simp: set_mm_insert)

lemma filter_key_above:
  "\<forall>p \<in> set (props :: properties). k < fst p \<Longrightarrow> filter (\<lambda>p. fst p = k) props = []"
  by (induction props) auto

lemma filter_mm_insert:
  "sorted (map fst props) \<Longrightarrow>
     filter (\<lambda>p. fst p = k) (mm_insert kv props) =
       filter (\<lambda>p. fst p = k) props @ (if fst kv = k then [kv] else [])"
proof (induction props)
  case Nil
  show ?case by simp
next
  case (Cons x xs)
  show ?case
  proof (cases "fst kv < fst x")
    case True
    with Cons.prems have "\<forall>p \<in> set (x # xs). fst kv < fst p" by auto
    then have "fst kv = k \<Longrightarrow> filter (\<lambda>p. fst p = k) (x # xs) = []"
      using filter_key_above [of "x # xs" k] by blast
    with True show ?thesis by auto
  next
    case False
    with Cons show ?thesis by simp
  qed
qed


lemma properties_loop_stable:
  "properties_loop separator lines props = Inr out \<Longrightarrow> sorted (map fst props) \<Longrightarrow>
     sorted (map fst out)
     \<and> (\<forall>k. filter (\<lambda>p. fst p = k) out =
            filter (\<lambda>p. fst p = k) props @ filter (\<lambda>p. fst p = k) (file_pairs separator lines))"
proof (induction lines arbitrary: props)
  case Nil
  then show ?case by simp
next
  case (Cons line rest)
  show ?case
  proof (cases "read_property separator line")
    case (Inl e)
    with Cons.prems show ?thesis by simp
  next
    case (Inr r)
    show ?thesis
    proof (cases r)
      case None
      with Inr Cons show ?thesis by simp
    next
      case (Some kv)
      with Inr Cons.prems have l: "properties_loop separator rest (mm_insert kv props) = Inr out"
        by simp
      from Cons.IH [OF l sorted_mm_insert [OF Cons.prems(2)]] Inr Some
        filter_mm_insert [OF Cons.prems(2)]
      show ?thesis by simp
    qed
  qed
qed

lemma keys_loop_remdups_adj:
  "res \<noteq> [] \<Longrightarrow>
     keys_loop props res = butlast res @ remdups_adj (last res # map fst props)"
proof (induction props arbitrary: res)
  case Nil
  then show ?case by simp
next
  case (Cons kv rest)
  show ?case
  proof (cases "last res = fst kv")
    case True
    with Cons show ?thesis by simp
  next
    case False
    have "keys_loop (kv # rest) res = keys_loop rest (res @ [fst kv])"
      using False Cons.prems by simp
    also have "\<dots> = butlast (res @ [fst kv]) @ remdups_adj (last (res @ [fst kv]) # map fst rest)"
      by (rule Cons.IH) simp
    also have "\<dots> = res @ remdups_adj (fst kv # map fst rest)" by simp
    also have "\<dots> = (butlast res @ [last res]) @ remdups_adj (fst kv # map fst rest)"
      using Cons.prems by simp
    also have "\<dots> = butlast res @ remdups_adj (last res # map fst (kv # rest))"
      using False by simp
    finally show ?thesis .
  qed
qed

lemma keys_remdups_adj: "keys props = remdups_adj (map fst props)"
proof (cases props)
  case Nil
  then show ?thesis by (simp add: keys_def)
next
  case (Cons kv rest)
  then show ?thesis using keys_loop_remdups_adj [of "[fst kv]" rest] by (simp add: keys_def)
qed

lemma distinct_remdups_adj_sorted:
  "sorted (xs :: string list) \<Longrightarrow> distinct (remdups_adj xs)"
proof (induction xs rule: remdups_adj.induct)
  case 1
  show ?case by simp
next
  case (2 x)
  show ?case by simp
next
  case (3 x y xs)
  show ?case
  proof (cases "x = y")
    case True
    with 3 show ?thesis by simp
  next
    case False
    from "3.prems" have s: "sorted (y # xs)" by simp
    from "3.prems" False have "\<forall>z \<in> set (y # xs). x < z" by auto
    then have "x \<notin> set (remdups_adj (y # xs))" by (auto simp: remdups_adj_set)
    with False "3.IH"(2) [OF False s] show ?thesis by simp
  qed
qed

lemma takeWhile_not_above:
  "sorted (map fst (props :: properties)) \<Longrightarrow> \<forall>p \<in> set props. \<not> fst p < k \<Longrightarrow>
     takeWhile (\<lambda>kv. \<not> k < fst kv) props = filter (\<lambda>p. fst p = k) props"
proof (induction props)
  case Nil
  show ?case by simp
next
  case (Cons x xs)
  show ?case
  proof (cases "k < fst x")
    case True
    with Cons.prems have "\<forall>p \<in> set (x # xs). k < fst p" by auto
    from filter_key_above [OF this] True show ?thesis by simp
  next
    case False
    with Cons.prems have "fst x = k" by auto
    with Cons show ?thesis by simp
  qed
qed

lemma equal_range_filter:
  "sorted (map fst (props :: properties)) \<Longrightarrow>
     equal_range k props = filter (\<lambda>p. fst p = k) props"
proof (induction props)
  case Nil
  show ?case by (simp add: equal_range_def)
next
  case (Cons x xs)
  show ?case
  proof (cases "fst x < k")
    case True
    with Cons show ?thesis by (simp add: equal_range_def)
  next
    case False
    with Cons.prems have "\<forall>p \<in> set (x # xs). \<not> fst p < k" by auto
    from takeWhile_not_above [OF Cons.prems this] False show ?thesis
      by (simp add: equal_range_def)
  qed
qed

lemma properties_loop_from_empty:
  assumes "properties_loop separator lines [] = Inr props"
  shows "sorted (map fst props)"
    and "filter (\<lambda>p. fst p = k) props = filter (\<lambda>p. fst p = k) (file_pairs separator lines)"
    and "fst ` set props = fst ` set (file_pairs separator lines)"
proof -
  from properties_loop_stable [OF assms]
  have s: "sorted (map fst props)"
    and f: "\<And>k. filter (\<lambda>p. fst p = k) props = filter (\<lambda>p. fst p = k) (file_pairs separator lines)"
    by simp_all
  show "sorted (map fst props)" by (rule s)
  show "filter (\<lambda>p. fst p = k) props = filter (\<lambda>p. fst p = k) (file_pairs separator lines)"
    by (rule f)
  show "fst ` set props = fst ` set (file_pairs separator lines)"
  proof (intro set_eqI iffI)
    fix x assume "x \<in> fst ` set props"
    then have "filter (\<lambda>p. fst p = x) props \<noteq> []" by (auto simp: filter_empty_conv)
    with f [of x] have "filter (\<lambda>p. fst p = x) (file_pairs separator lines) \<noteq> []" by simp
    then show "x \<in> fst ` set (file_pairs separator lines)"
      by (auto simp: filter_empty_conv intro: rev_image_eqI)
  next
    fix x assume "x \<in> fst ` set (file_pairs separator lines)"
    then have "filter (\<lambda>p. fst p = x) (file_pairs separator lines) \<noteq> []"
      by (auto simp: filter_empty_conv)
    with f [of x] have "filter (\<lambda>p. fst p = x) props \<noteq> []" by simp
    then show "x \<in> fst ` set props"
      by (auto simp: filter_empty_conv intro: rev_image_eqI)
  qed
qed

lemma trim_trailing_below: "trim_trailing val i = Inr j \<Longrightarrow> j < i"
proof (induction val i rule: trim_trailing.induct)
  case (1 val i)
  show ?case
  proof (cases "i = 0")
    case True
    with "1.prems" show ?thesis by (simp add: trim_trailing.simps [of val 0])
  next
    case False
    show ?thesis
    proof (cases "string_at val (i - 1)")
      case (Inl e)
      with False "1.prems" show ?thesis by (simp add: trim_trailing.simps [of val i])
    next
      case (Inr c)
      show ?thesis
      proof (cases "is_negative c \<or> isspace c")
        case True
        with False Inr "1.prems" have "trim_trailing val (i - 1) = Inr j"
          by (simp add: trim_trailing.simps [of val i])
        from "1.IH" [OF False Inr True this] False show ?thesis by simp
      next
        case b: False
        with False Inr "1.prems" show ?thesis
          by (auto simp add: trim_trailing.simps [of val i])
      qed
    qed
  qed
qed

lemma read_property_nonempty:
  assumes "read_property separator line = Inr (Some (key, val))"
  shows "key \<noteq> [] \<and> val \<noteq> []"
proof -
  from assms obtain v i2 where k: "key \<noteq> []"
    and t: "trim_trailing v (length v) = Inr i2"
    and e: "erase_from v (i2 + 1) = Inr val"
    by (auto simp: read_property_def split: sum.splits prod.splits if_splits)
  from trim_trailing_below [OF t] have "i2 < length v" .
  with e have "val = take (i2 + 1) v" and "v \<noteq> []"
    by (auto simp: erase_from_def split: if_splits)
  with k show ?thesis by simp
qed

lemma file_pairs_nonempty:
  "(key, val) \<in> set (file_pairs separator lines) \<Longrightarrow> key \<noteq> [] \<and> val \<noteq> []"
proof (induction lines)
  case Nil
  then show ?case by simp
next
  case (Cons line rest)
  then show ?case
    by (auto split: sum.splits option.splits dest: read_property_nonempty)
qed

lemma returned_store_nonempty:
  assumes "PropertiesFileReader fs fileName separator = Inr props"
    and "(key, val) \<in> set props"
  shows "key \<noteq> [] \<and> val \<noteq> []"
proof -
  from assms(1) obtain content where "fs fileName = Some content"
    and l: "properties_loop separator (file_lines content) [] = Inr props"
    by (auto simp: PropertiesFileReader_def split: option.splits)
  from assms(2) have "(key, val) \<in> set (filter (\<lambda>p. fst p = key) props)" by simp
  with properties_loop_from_empty(2) [OF l, of key]
  have "(key, val) \<in> set (file_pairs separator (file_lines content))" by auto
  then show ?thesis by (rule file_pairs_nonempty)
qed

text \<open>
  What the body of the loop does with one line. With a separator on the line, the key
  is the text before the first separator without its white space, and the line is
  dropped when that key is empty or starts a comment; otherwise the value is the rest
  of the line trimmed at both ends, and an empty value sends the trailing trim out of
  bounds. Without a separator the line is dropped only if its key is empty, starts a
  comment or is the whole line, that is, the line has no white space either.
\<close>

lemma key_loop_scan:
  "i \<le> length line \<Longrightarrow>
     key_loop line separator i key =
       Inr (i + length (takeWhile (\<lambda>c. c \<noteq> separator) (drop i line)),
            key @ filter (\<lambda>c. is_negative c \<or> \<not> isspace c)
                    (takeWhile (\<lambda>c. c \<noteq> separator) (drop i line)))"
proof (induction line separator i key rule: key_loop.induct)
  case (1 line separator i key)
  show ?case
  proof (cases "i < length line")
    case False
    with "1.prems" have "i = length line" by simp
    then show ?thesis
      by (simp add: key_loop.simps [of line separator "length line" key] string_at_def)
  next
    case True
    then have s: "string_at line i = Inr (line ! i)" by (simp add: string_at_def)
    from True have d: "drop i line = line ! i # drop (i + 1) line"
      by (simp add: Cons_nth_drop_Suc)
    show ?thesis
    proof (cases "line ! i = separator")
      case True
      with s d show ?thesis by (simp add: key_loop.simps [of line separator i key])
    next
      case False
      from \<open>i < length line\<close> have le: "i + 1 \<le> length line" by simp
      from False \<open>i < length line\<close> have c: "line ! i \<noteq> separator \<and> i < length line" by simp
      note ih = "1.IH" [OF s c le]
      from s c have "key_loop line separator i key =
          key_loop line separator (i + 1)
            (if is_negative (line ! i) \<or> \<not> isspace (line ! i) then key @ [line ! i] else key)"
        by (simp add: key_loop.simps [of line separator i key])
      with ih d False show ?thesis by simp
    qed
  qed
qed

lemma skip_leading_scan:
  "i < length line \<Longrightarrow>
     skip_leading line i = Inr (Suc i + length (takeWhile blank (drop (Suc i) line)))"
proof (induction line i rule: skip_leading.induct)
  case (1 line i)
  show ?case
  proof (cases "i + 1 < length line")
    case False
    with "1.prems" have e: "i + 1 = length line" by simp
    then have "string_at line (i + 1) = Inr (CHR 0x00)" by (simp add: string_at_def)
    moreover have "\<not> (is_negative (CHR 0x00) \<or> isspace (CHR 0x00))"
      by (simp add: is_negative_def isspace_def)
    ultimately show ?thesis using e
      by (simp add: skip_leading.simps [of line i])
  next
    case True
    then have s: "string_at line (i + 1) = Inr (line ! (i + 1))" by (simp add: string_at_def)
    from True have d: "drop (Suc i) line = line ! (i + 1) # drop (Suc (i + 1)) line"
      by (simp add: Cons_nth_drop_Suc)
    show ?thesis
    proof (cases "is_negative (line ! (i + 1)) \<or> isspace (line ! (i + 1))")
      case False
      with s d show ?thesis by (simp add: skip_leading.simps [of line i] blank_def)
    next
      case b: True
      from "1.IH" [OF s b True] s b d show ?thesis
        by (simp add: skip_leading.simps [of line i] blank_def)
    qed
  qed
qed

lemma drop_takeWhile_length: "drop (n + length (takeWhile P (drop n xs))) xs = dropWhile P (drop n xs)"
proof -
  have "drop (n + length (takeWhile P (drop n xs))) xs
          = drop (length (takeWhile P (drop n xs))) (drop n xs)"
    by (simp add: add.commute)
  then show ?thesis by (simp add: dropWhile_eq_drop)
qed

lemma trim_trailing_scan:
  "i \<le> length val \<Longrightarrow>
     trim_trailing val i =
       (if \<forall>c \<in> set (take i val). blank c then Inl OutOfBounds
        else Inr (length (dropWhile blank (rev (take i val))) - 1))"
proof (induction val i rule: trim_trailing.induct)
  case (1 val i)
  show ?case
  proof (cases "i = 0")
    case True
    then show ?thesis by (simp add: trim_trailing.simps [of val 0])
  next
    case False
    with "1.prems" have lt: "i - 1 < length val" by simp
    then have s: "string_at val (i - 1) = Inr (val ! (i - 1))" by (simp add: string_at_def)
    from False lt have t: "take i val = take (i - 1) val @ [val ! (i - 1)]"
      using take_Suc_conv_app_nth [of "i - 1" val] by simp
    show ?thesis
    proof (cases "is_negative (val ! (i - 1)) \<or> isspace (val ! (i - 1))")
      case b: True
      then have bb: "blank (val ! (i - 1))" by (simp add: blank_def)
      from lt have "i - 1 \<le> length val" by simp
      note ih = "1.IH" [OF False s b this]
      from False s b have "trim_trailing val i = trim_trailing val (i - 1)"
        by (simp add: trim_trailing.simps [of val i])
      with ih bb t show ?thesis by simp
    next
      case b: False
      then have bb: "\<not> blank (val ! (i - 1))" by (simp add: blank_def)
      from "1.prems" have l: "length (take i val) = i" by simp
      from False s b have "trim_trailing val i = Inr (i - 1)"
        by (simp add: trim_trailing.simps [of val i])
      moreover from bb t have "dropWhile blank (rev (take i val)) = rev (take i val)" by simp
      moreover from bb t have "\<not> (\<forall>c \<in> set (take i val). blank c)" by auto
      ultimately show ?thesis using l by simp
    qed
  qed
qed

lemma take_trimmed: "take (length (dropWhile P (rev xs))) xs = rev (dropWhile P (rev xs))"
proof -
  have "rev xs = takeWhile P (rev xs) @ dropWhile P (rev xs)" by simp
  then have "xs = rev (dropWhile P (rev xs)) @ rev (takeWhile P (rev xs))"
    by (metis rev_append rev_rev_ident)
  then have "take (length (rev (dropWhile P (rev xs)))) xs = rev (dropWhile P (rev xs))"
    by (metis append_eq_conv_conj)
  then show ?thesis by simp
qed

lemma key_loop_key_text:
  "key_loop line separator 0 [] =
     Inr (length (takeWhile (\<lambda>c. c \<noteq> separator) line), key_text separator line)"
  using key_loop_scan [of 0 line separator "[]"] by (simp add: key_text_def)

lemma key_text_shorter:
  assumes "separator \<in> set line"
  shows "length (takeWhile (\<lambda>c. c \<noteq> separator) line) < length line"
    and "length (key_text separator line) < length line"
proof -
  from assms have "takeWhile (\<lambda>c. c \<noteq> separator) line \<noteq> line"
    by (metis (mono_tags, lifting) takeWhile_eq_all_conv)
  moreover have "length (takeWhile (\<lambda>c. c \<noteq> separator) line) \<le> length line"
    by (rule length_takeWhile_le)
  ultimately show n: "length (takeWhile (\<lambda>c. c \<noteq> separator) line) < length line"
    by (metis le_neq_implies_less takeWhile_eq_take take_all order_refl)
  have "length (key_text separator line) \<le> length (takeWhile (\<lambda>c. c \<noteq> separator) line)"
    by (simp add: key_text_def)
  with n show "length (key_text separator line) < length line" by simp
qed

lemma read_property_with_separator:
  assumes "separator \<in> set line"
  shows "read_property separator line =
           (if not_a_property separator line then Inr None
            else if value_text separator line = [] then Inl OutOfBounds
            else Inr (Some (key_text separator line, value_text separator line)))"
proof (cases "not_a_property separator line")
  case True
  then show ?thesis
    by (auto simp add: read_property_def key_loop_key_text not_a_property_def)
next
  case False
  let ?n = "length (takeWhile (\<lambda>c. c \<noteq> separator) line)"
  let ?v = "dropWhile blank (drop (Suc ?n) line)"
  note sh = key_text_shorter [OF assms]
  have sk: "skip_leading line ?n = Inr (Suc ?n + length (takeWhile blank (drop (Suc ?n) line)))"
    using sh(1) by (rule skip_leading_scan)
  have le: "Suc ?n + length (takeWhile blank (drop (Suc ?n) line)) \<le> length line"
  proof -
    have "length (takeWhile blank (drop (Suc ?n) line)) \<le> length (drop (Suc ?n) line)"
      by (rule length_takeWhile_le)
    with sh(1) show ?thesis by simp
  qed
  have "length ?v \<le> length (drop (Suc ?n) line)" by (rule length_dropWhile_le)
  then have lv: "length ?v \<le> length line" by simp
  have su: "substr line (Suc ?n + length (takeWhile blank (drop (Suc ?n) line))) (length line) = Inr ?v"
    using le lv drop_takeWhile_length [of "Suc ?n" blank line] by (simp add: substr_def)
  have vt: "value_text separator line = rev (dropWhile blank (rev ?v))"
    by (simp add: value_text_def trim_def)
  have tt: "trim_trailing ?v (length ?v) =
       (if \<forall>c \<in> set ?v. blank c then Inl OutOfBounds
        else Inr (length (dropWhile blank (rev ?v)) - 1))"
    using trim_trailing_scan [of "length ?v" ?v] by simp
  have em: "(\<forall>c \<in> set ?v. blank c) \<longleftrightarrow> value_text separator line = []"
    by (simp add: vt dropWhile_eq_Nil_conv)
  from False sh(2) have guard: "\<not> (length (key_text separator line) = 0
      \<or> key_text separator line ! 0 = CHR ''#'' \<or> key_text separator line ! 0 = CHR ''!''
      \<or> length (key_text separator line) = length line)"
    by (auto simp: not_a_property_def)
  show ?thesis
  proof (cases "value_text separator line = []")
    case True
    with em tt have "trim_trailing ?v (length ?v) = Inl OutOfBounds" by simp
    with True False guard sk su show ?thesis
      by (simp add: read_property_def key_loop_key_text)
  next
    case ne: False
    with em tt have t2: "trim_trailing ?v (length ?v) = Inr (length (dropWhile blank (rev ?v)) - 1)"
      by simp
    from ne vt have pos: "0 < length (dropWhile blank (rev ?v))" by simp
    have "length (dropWhile blank (rev ?v)) \<le> length ?v"
      by (metis length_dropWhile_le length_rev)
    with pos have er: "erase_from ?v (length (dropWhile blank (rev ?v)) - 1 + 1)
                        = Inr (value_text separator line)"
      by (simp add: erase_from_def vt take_trimmed)
    from ne False guard sk su t2 er show ?thesis
      by (simp add: read_property_def key_loop_key_text)
  qed
qed

lemma read_property_without_separator:
  assumes "separator \<notin> set line"
  shows "read_property separator line =
           (if not_a_property separator line
               \<or> length (key_text separator line) = length line then Inr None
            else Inl OutOfBounds)"
proof -
  from assms have n: "takeWhile (\<lambda>c. c \<noteq> separator) line = line"
    by (auto simp add: takeWhile_eq_all_conv)
  have "skip_leading line (length line) = Inl OutOfBounds"
    by (simp add: skip_leading.simps [of line "length line"] string_at_def)
  then show ?thesis
    by (auto simp add: read_property_def key_loop_key_text n not_a_property_def)
qed

lemma key_whole_line:
  "length (key_text separator line) = length line \<longleftrightarrow>
     separator \<notin> set line \<and> (\<forall>c \<in> set line. is_negative c \<or> \<not> isspace c)"
proof -
  let ?t = "takeWhile (\<lambda>c. c \<noteq> separator) line"
  have a: "length (key_text separator line) \<le> length ?t" by (simp add: key_text_def)
  have b: "length ?t \<le> length line" by (rule length_takeWhile_le)
  show ?thesis
  proof
    assume e: "length (key_text separator line) = length line"
    with a b have "length ?t = length line" by simp
    then have t: "?t = line" by (metis takeWhile_eq_take take_all order_refl)
    then have s: "separator \<notin> set line" by (metis (mono_tags, lifting) takeWhile_eq_all_conv)
    from e t have "length (filter (\<lambda>c. is_negative c \<or> \<not> isspace c) line) = length line"
      by (simp add: key_text_def)
    then have "\<forall>c \<in> set line. is_negative c \<or> \<not> isspace c"
      by (metis (mono_tags, lifting) filter_id_conv length_filter_less less_irrefl)
    with s show "separator \<notin> set line \<and> (\<forall>c \<in> set line. is_negative c \<or> \<not> isspace c)"
      by simp
  next
    assume h: "separator \<notin> set line \<and> (\<forall>c \<in> set line. is_negative c \<or> \<not> isspace c)"
    then have tw: "takeWhile (\<lambda>c. c \<noteq> separator) line = line"
      by (auto simp add: takeWhile_eq_all_conv)
    from h have fi: "filter (\<lambda>c. is_negative c \<or> \<not> isspace c) line = line"
      by (auto simp add: filter_id_conv)
    show "length (key_text separator line) = length line"
      by (simp only: key_text_def tw fi)
  qed
qed

lemma properties_example:
  "PropertiesFileReader (one_file ''test.prop'' ''key = value  \<newline>'') ''test.prop'' (CHR ''='')
     = Inr [(''key'', ''value'')]"
  by code_simp

text \<open>
  Claim C8, as the code has it. \<^verbatim>\<open>keys()\<close> returns each stored key exactly once, and
  the stored keys are the keys of the pairs read from the file; they come in ascending
  order of the key (the byte-wise lexicographic order of the multimap), not in the
  order of first insertion. \<^verbatim>\<open>values(k)\<close> returns all the values of \<open>k\<close> in file order.
\<close>

theorem keys_ascending_values_in_file_order:
  assumes "fs fileName = Some content"
    and "PropertiesFileReader fs fileName separator = Inr props"
  shows "distinct (keys props) \<and> sorted (keys props)
         \<and> set (keys props) = fst ` set props
         \<and> set (keys props) = fst ` set (file_pairs separator (file_lines content))
         \<and> values_of TString props k =
             map (\<lambda>kv. FString (snd kv))
               (filter (\<lambda>kv. fst kv = k) (file_pairs separator (file_lines content)))"
proof -
  from assms have l: "properties_loop separator (file_lines content) [] = Inr props"
    by (simp add: PropertiesFileReader_def)
  note p = properties_loop_from_empty [OF l]
  have "distinct (keys props)"
    using p(1) by (simp add: keys_remdups_adj distinct_remdups_adj_sorted)
  moreover have "sorted (keys props)"
    using p(1) by (simp add: keys_remdups_adj sorted_remdups_adj)
  moreover have "set (keys props) = fst ` set props"
    by (simp add: keys_remdups_adj remdups_adj_set)
  moreover have "set (keys props) = fst ` set (file_pairs separator (file_lines content))"
    using p(3) by (simp add: keys_remdups_adj remdups_adj_set)
  moreover have "values_of TString props k =
             map (\<lambda>kv. FString (snd kv))
               (filter (\<lambda>kv. fst kv = k) (file_pairs separator (file_lines content)))"
    using p(2) [of k] equal_range_filter [OF p(1), of k] by (simp add: values_of_def)
  ultimately show ?thesis by blast
qed

theorem keys_ascending_values_in_file_order_witness:
  "distinct (keys [(''a'', ''2''), (''b'', ''1''), (''b'', ''3'')])
   \<and> sorted (keys [(''a'', ''2''), (''b'', ''1''), (''b'', ''3'')])
   \<and> set (keys [(''a'', ''2''), (''b'', ''1''), (''b'', ''3'')])
       = fst ` set [(''a'', ''2''), (''b'', ''1''), (''b'', ''3'')]
   \<and> set (keys [(''a'', ''2''), (''b'', ''1''), (''b'', ''3'')])
       = fst ` set (file_pairs (CHR ''='') (file_lines ''b=1\<newline>a=2\<newline>b=3''))
   \<and> values_of TString [(''a'', ''2''), (''b'', ''1''), (''b'', ''3'')] ''b''
       = map (\<lambda>kv. FString (snd kv))
           (filter (\<lambda>kv. fst kv = ''b'') (file_pairs (CHR ''='') (file_lines ''b=1\<newline>a=2\<newline>b=3'')))"
proof -
  let ?c = "''b=1\<newline>a=2\<newline>b=3''"
  have f: "one_file ''test.prop'' ?c ''test.prop'' = Some ?c" by (simp add: one_file_def)
  have r: "PropertiesFileReader (one_file ''test.prop'' ?c) ''test.prop'' (CHR ''='')
             = Inr [(''a'', ''2''), (''b'', ''1''), (''b'', ''3'')]"
    by code_simp
  from keys_ascending_values_in_file_order [OF f r] show ?thesis .
qed

text \<open>
  Claim C8 as stated fails: the file \<^verbatim>\<open>"b=1\na=2"\<close> inserts \<open>b\<close> before \<open>a\<close>, and
  \<^verbatim>\<open>keys()\<close> returns \<open>a\<close> before \<open>b\<close>.
\<close>

theorem keys_not_in_first_insertion_order:
  "PropertiesFileReader (one_file ''test.prop'' ''b=1\<newline>a=2'') ''test.prop'' (CHR ''='')
     = Inr [(''a'', ''2''), (''b'', ''1'')]
   \<and> keys [(''a'', ''2''), (''b'', ''1'')] = [''a'', ''b'']
   \<and> file_pairs (CHR ''='') (file_lines ''b=1\<newline>a=2'') = [(''b'', ''1''), (''a'', ''2'')]
   \<and> first_insertion_keys [(''b'', ''1''), (''a'', ''2'')] = [''b'', ''a'']"
  by code_simp

text \<open>
  Claim C9. Every stored key and every stored value is a non-empty string. A store the
  constructor returns has that property (\<open>returned_store_nonempty\<close>), but the code
  does not establish it for every file: on a line whose value is empty after the
  leading trim, such as \<^verbatim>\<open>k=\<close>, the trailing trim decrements the index 0 and reads
  \<^verbatim>\<open>value[SIZE_MAX]\<close>, out of bounds, before it would insert the empty value.
\<close>

theorem empty_value_reads_out_of_bounds:
  "read_property (CHR ''='') ''k='' = Inl OutOfBounds
   \<and> PropertiesFileReader (one_file ''test.prop'' ''k='') ''test.prop'' (CHR ''='') = Inl OutOfBounds
   \<and> PropertiesFileReader (one_file ''test.prop'' ''a=1\<newline>k=  \<newline>b=2'') ''test.prop'' (CHR ''='')
       = Inl OutOfBounds"
  by code_simp

text \<open>
  Claim C7. A line is discarded exactly when its key is empty, starts with \<open>#\<close> or
  \<open>!\<close>, or the line has no separator; any other line yields one pair. The code tests
  "no separator" by \<^verbatim>\<open>key.length() == line.length()\<close>, which misses a line that has no
  separator but has white space: \<^verbatim>\<open>a b\<close> gives the key \<open>ab\<close> of length 2 against a line
  of length 3, is not discarded, and the scan for the value starts beyond the end of
  the line, out of bounds. Without the space (\<^verbatim>\<open>ab\<close>) the line is discarded.
\<close>

theorem line_without_separator_not_discarded:
  "find_char ''a b'' (CHR ''='') 0 = None
   \<and> key_loop ''a b'' (CHR ''='') 0 [] = Inr (3, ''ab'')
   \<and> read_property (CHR ''='') ''a b'' = Inl OutOfBounds
   \<and> read_property (CHR ''='') ''ab'' = Inr None
   \<and> PropertiesFileReader (one_file ''test.prop'' ''a b'') ''test.prop'' (CHR ''='') = Inl OutOfBounds"
  by code_simp

section \<open>Decoding numbers\<close>
























end
